theory Spec2Isabelle
  imports Main "HOL-Library.Word" "HOL-Library.Product_Lexorder"
begin

section \<open>Akumuli write cache (src/cache.cpp): shards, buckets and the sliding window\<close>

text \<open>
  The embedding follows \<^verbatim>\<open>src/src/cache.cpp\<close> function by function. The headers
  \<^verbatim>\<open>cache.h\<close>, \<^verbatim>\<open>akumuli_def.h\<close> and \<^verbatim>\<open>util.h\<close> are not part of the sources, so the
  declarations they hold are fixed here as follows.
  \<^item> \<^verbatim>\<open>TimeStamp\<close> wraps a signed 64-bit value that the code only compares, shifts right
    and subtracts; it is an \<open>int\<close> here (no claim depends on wrap-around).
  \<^item> \<^verbatim>\<open>ParamId\<close> and \<^verbatim>\<open>EntryOffset\<close> are unsigned 32-bit words; \<^verbatim>\<open>(ParamId)~0\<close> is the
    word \<open>- 1\<close>.
  \<^item> A key is \<^verbatim>\<open>std::tuple<TimeStamp, ParamId>\<close>, compared lexicographically.
  \<^item> The status macros are symbolic constants of one datatype.
  \<^item> A member \<^verbatim>\<open>x_\<close> of the source is written without its trailing underscore or
    with a prefix (\<^verbatim>\<open>data_\<close> is \<open>seq_data\<close>, \<^verbatim>\<open>add_entry_\<close> is \<open>Cache_add_entry\<close>).
  Locks are modelled by their outcome: a blocking \<^verbatim>\<open>lock()\<close> returns, and the result of
  each \<^verbatim>\<open>try_lock()\<close> is an input of the operation.
\<close>

type_synonym TimeStamp = int
type_synonym ParamId = "32 word"
type_synonym EntryOffset = "32 word"
type_synonym KeyType = "TimeStamp \<times> ParamId"
type_synonym MapType = "(KeyType \<times> EntryOffset) list"

datatype aku_status =
    AKU_SUCCESS
  | AKU_WRITE_STATUS_SUCCESS
  | AKU_EBAD_ARG
  | AKU_EOVERFLOW
  | AKU_EGENERAL
  | AKU_EBUSY

text \<open>What the calls on \<^verbatim>\<open>InternalCursor\<close> leave in the sink, in order.\<close>

datatype cursor_event = Put EntryOffset | Complete | Set_error aku_status

text \<open>
  Executions the C++ standard leaves undefined are values of the model: an iterator
  dereferenced at \<^verbatim>\<open>end()\<close>, \<^verbatim>\<open>front()\<close> of an empty list, an iterator moved before
  \<^verbatim>\<open>begin()\<close>, a remainder by zero, the conversion to \<^verbatim>\<open>int\<close> of a logarithm that is
  not a number, a shift of a 32-bit integer by 32 or more.
\<close>

datatype fault =
    Deref_end
  | Front_of_empty
  | Advance_before_begin
  | Rem_by_zero
  | Log_not_a_number
  | Shift_too_wide

subsection \<open>Sequence (a shard)\<close>

text \<open>
  Modelled from the spec: the declaration of \<^verbatim>\<open>Sequence::MapType\<close> is in cache.h, which is
  missing. The spec calls it an ordered mapping with unique keys, so \<^verbatim>\<open>data_\<close> is a list
  of key/offset pairs kept in ascending key order, \<^verbatim>\<open>begin()\<close> is its head and \<^verbatim>\<open>end()\<close>
  the position after its last element. \<open>map_insert\<close> is \<^verbatim>\<open>std::map::insert\<close>: it places
  a new key at its position and leaves the map alone when the key is present.
\<close>

fun map_insert :: "KeyType \<Rightarrow> EntryOffset \<Rightarrow> MapType \<Rightarrow> MapType" where
  "map_insert k v [] = [(k, v)]"
| "map_insert k v ((k', v') # rest) =
     (if k < k' then (k, v) # (k', v') # rest
      else if k = k' then (k', v') # rest
      else (k', v') # map_insert k v rest)"

text \<open>\<^verbatim>\<open>lower_bound(key)\<close>: the first position whose key is not less than \<open>key\<close>;
  \<^verbatim>\<open>upper_bound(key)\<close>: the first position whose key is greater. Both may be \<^verbatim>\<open>end()\<close>.\<close>

definition lower_bound :: "KeyType \<Rightarrow> MapType \<Rightarrow> nat" where
  "lower_bound key m = length (takeWhile (\<lambda>e. fst e < key) m)"

definition upper_bound :: "KeyType \<Rightarrow> MapType \<Rightarrow> nat" where
  "upper_bound key m = length (takeWhile (\<lambda>e. fst e \<le> key) m)"

record Sequence =
  capacity :: nat
  seq_data :: MapType
  seq_temp :: "(TimeStamp \<times> ParamId \<times> EntryOffset) list"

definition Sequence_new :: "nat \<Rightarrow> Sequence" where
  "Sequence_new max_size = \<lparr>capacity = max_size, seq_data = [], seq_temp = []\<rparr>"

text \<open>The loop of \<^verbatim>\<open>Sequence::add\<close> over \<^verbatim>\<open>temp_\<close>; the source does not empty \<^verbatim>\<open>temp_\<close>
  afterwards.\<close>

fun drain_temp :: "(TimeStamp \<times> ParamId \<times> EntryOffset) list \<Rightarrow> MapType \<Rightarrow> MapType" where
  "drain_temp [] m = m"
| "drain_temp ((ts, p, off) # rest) m = drain_temp rest (map_insert (ts, p) off m)"

text \<open>\<^verbatim>\<open>Sequence::add\<close>; \<open>lock_ok\<close> and \<open>tmp_ok\<close> are the results of the two
  \<^verbatim>\<open>try_lock()\<close> calls.\<close>

definition Sequence_add ::
  "bool \<Rightarrow> bool \<Rightarrow> TimeStamp \<Rightarrow> ParamId \<Rightarrow> EntryOffset \<Rightarrow> Sequence \<Rightarrow> aku_status \<times> Sequence" where
  "Sequence_add lock_ok tmp_ok ts p offset s =
     (if lock_ok then
        (let d = (if tmp_ok then drain_temp (seq_temp s) (seq_data s) else seq_data s)
         in (AKU_WRITE_STATUS_SUCCESS, s\<lparr>seq_data := map_insert (ts, p) offset d\<rparr>))
      else (AKU_WRITE_STATUS_SUCCESS, s\<lparr>seq_temp := seq_temp s @ [(ts, p, offset)]\<rparr>))"

text \<open>
  Modelled from the spec: the direction constants are macros of akumuli_def.h, which is
  missing; the spec has exactly two directions, so they are two distinct integers.
\<close>

definition AKU_CURSOR_DIR_FORWARD :: int where
  "AKU_CURSOR_DIR_FORWARD = 0"

definition AKU_CURSOR_DIR_BACKWARD :: int where
  "AKU_CURSOR_DIR_BACKWARD = 1"

record SingleParameterSearchQuery =
  lowerbound :: TimeStamp
  upperbound :: TimeStamp
  param :: ParamId
  direction :: int

text \<open>The forward loop, lines 103-112; the iterator is the rest of the map from its
  position on, and \<^verbatim>\<open>end()\<close> is the empty rest.\<close>

fun search_forward_loop :: "SingleParameterSearchQuery \<Rightarrow> MapType \<Rightarrow> cursor_event list" where
  "search_forward_loop q [] = []"
| "search_forward_loop q ((curr_key, off) # rest) =
     (if fst curr_key \<ge> upperbound q then []
      else (if snd curr_key = param q then [Put off] else [])
           @ search_forward_loop q rest)"

text \<open>The backward loop, lines 80-92; the iterator is a position \<open>i\<close> of the map, read
  before any test, and \<open>i = length m\<close> is \<^verbatim>\<open>end()\<close>.\<close>

fun search_backward_loop ::
  "SingleParameterSearchQuery \<Rightarrow> MapType \<Rightarrow> nat \<Rightarrow> fault + cursor_event list" where
  "search_backward_loop q m i =
     (if i \<ge> length m then Inl Deref_end
      else
        (let curr_key = fst (m ! i);
             hits = (if snd curr_key = param q \<and> fst curr_key \<le> upperbound q
                     then [Put (snd (m ! i))] else [])
         in if fst curr_key \<le> lowerbound q then Inr []
            else if i = 0 then Inr hits
            else map_sum id ((@) hits) (search_backward_loop q m (i - 1))))"

definition Sequence_search ::
  "Sequence \<Rightarrow> SingleParameterSearchQuery \<Rightarrow> fault + cursor_event list" where
  "Sequence_search s q =
     (let forward = (direction q = AKU_CURSOR_DIR_FORWARD);
          backward = (direction q = AKU_CURSOR_DIR_BACKWARD)
      in if upperbound q < lowerbound q \<or> \<not> (forward \<noteq> backward)
         then Inr [Set_error AKU_EBAD_ARG]
         else if backward
         then map_sum id (\<lambda>evs. evs @ [Complete])
                (search_backward_loop q (seq_data s)
                   (upper_bound (upperbound q, - 1) (seq_data s)))
         else Inr (search_forward_loop q
                     (drop (lower_bound (lowerbound q, 0) (seq_data s)) (seq_data s))
                   @ [Complete]))"

text \<open>
  The read of line 81 at \<^verbatim>\<open>end()\<close> is the one step of the backward search that is not
  defined. In a build that does not check iterators it yields some key and offset and the
  run goes on: line 88 compares the iterator with \<^verbatim>\<open>begin()\<close>, which it equals only in an
  empty map, and line 91 moves it from \<^verbatim>\<open>end()\<close> to the last element, which is defined.
  \<open>search_backward_unchecked\<close> is the loop of lines 80-92 with \<open>at_end\<close> for what
  that read yields, whatever it is; every other step is the one of
  \<open>search_backward_loop\<close>. \<open>Sequence_search_unchecked\<close> is \<^verbatim>\<open>Sequence::search\<close> with it.
\<close>

fun search_backward_unchecked ::
  "KeyType \<times> EntryOffset \<Rightarrow> SingleParameterSearchQuery \<Rightarrow> MapType \<Rightarrow> nat
     \<Rightarrow> cursor_event list" where
  "search_backward_unchecked at_end q m i =
     (let e = (if i < length m then m ! i else at_end);
          curr_key = fst e;
          hits = (if snd curr_key = param q \<and> fst curr_key \<le> upperbound q
                  then [Put (snd e)] else [])
      in if fst curr_key \<le> lowerbound q then []
         else if i = 0 then hits
         else hits @ search_backward_unchecked at_end q m (i - 1))"

definition Sequence_search_unchecked ::
  "KeyType \<times> EntryOffset \<Rightarrow> Sequence \<Rightarrow> SingleParameterSearchQuery \<Rightarrow> cursor_event list" where
  "Sequence_search_unchecked at_end s q =
     (let forward = (direction q = AKU_CURSOR_DIR_FORWARD);
          backward = (direction q = AKU_CURSOR_DIR_BACKWARD)
      in if upperbound q < lowerbound q \<or> \<not> (forward \<noteq> backward)
         then [Set_error AKU_EBAD_ARG]
         else if backward
         then search_backward_unchecked at_end q (seq_data s)
                (upper_bound (upperbound q, - 1) (seq_data s))
              @ [Complete]
         else search_forward_loop q
                (drop (lower_bound (lowerbound q, 0) (seq_data s)) (seq_data s))
              @ [Complete])"

subsection \<open>Bucket\<close>

record Bucket =
  seq :: "Sequence list"
  rrindex :: int
  state :: int
  baseline :: int

text \<open>The constructor, lines 132-143: \<open>n\<close> shards, \<^verbatim>\<open>rrindex_\<close> and \<^verbatim>\<open>state\<close> zero.\<close>

definition Bucket_new :: "nat \<Rightarrow> nat \<Rightarrow> int \<Rightarrow> Bucket" where
  "Bucket_new n max_size bl =
     \<lparr>seq = replicate n (Sequence_new max_size), rrindex = 0, state = 0, baseline = bl\<rparr>"

text \<open>\<^verbatim>\<open>Bucket::add\<close>; \<open>cpuix\<close> is what \<^verbatim>\<open>aku_getcpu()\<close> returned. No line of the source
  writes \<^verbatim>\<open>rrindex_\<close> after the constructor.\<close>

definition Bucket_add ::
  "nat \<Rightarrow> bool \<Rightarrow> bool \<Rightarrow> TimeStamp \<Rightarrow> ParamId \<Rightarrow> EntryOffset \<Rightarrow> Bucket
     \<Rightarrow> fault + (aku_status \<times> Bucket)" where
  "Bucket_add cpuix lock_ok tmp_ok ts p offset b =
     (if length (seq b) = 0 then Inl Rem_by_zero
      else
        (let index = cpuix mod length (seq b);
             r = Sequence_add lock_ok tmp_ok ts p offset (seq b ! index)
         in Inr (fst r, b\<lparr>seq := (seq b)[index := snd r]\<rparr>)))"

text \<open>\<^verbatim>\<open>Bucket::search\<close>: every shard in turn, into the same sink.\<close>

fun search_shards ::
  "Sequence list \<Rightarrow> SingleParameterSearchQuery \<Rightarrow> fault + cursor_event list" where
  "search_shards [] q = Inr []"
| "search_shards (s # rest) q =
     (case Sequence_search s q of
        Inl f \<Rightarrow> Inl f
      | Inr evs \<Rightarrow> map_sum id ((@) evs) (search_shards rest q))"

definition Bucket_search ::
  "Bucket \<Rightarrow> SingleParameterSearchQuery \<Rightarrow> fault + cursor_event list" where
  "Bucket_search b q = search_shards (seq b) q"

text \<open>The entry reader: \<^verbatim>\<open>page->read_entry(offset)\<close>, of which \<^verbatim>\<open>less_than\<close> reads the
  fields \<^verbatim>\<open>time\<close> and \<^verbatim>\<open>param_id\<close>.\<close>

type_synonym PageHeader = "EntryOffset \<Rightarrow> TimeStamp \<times> ParamId"

definition less_than :: "KeyType \<times> EntryOffset \<Rightarrow> KeyType \<times> EntryOffset \<Rightarrow> PageHeader \<Rightarrow> bool" where
  "less_than lhs rhs page = (page (snd lhs) < page (snd rhs))"

text \<open>
  The merge keeps one iterator per shard; \<open>its ! i\<close> is what is left of shard \<open>i\<close> from
  \<open>iter[i]\<close> on, and \<open>iter[i] = end[i]\<close> when it is empty. \<open>merge_scan\<close> is the
  \<^verbatim>\<open>for\<close> loop of lines 213-224 over the indices still to visit, on the variables
  \<open>(min_ix, next_min, op_cnt)\<close> (\<^verbatim>\<open>min\<close> in the source); \<^verbatim>\<open>less_than\<close> dereferences both of its iterators.
\<close>

fun merge_scan ::
  "PageHeader \<Rightarrow> MapType list \<Rightarrow> nat list \<Rightarrow> nat \<times> nat \<times> nat \<Rightarrow> fault + (nat \<times> nat \<times> nat)" where
  "merge_scan page its [] st = Inr st"
| "merge_scan page its (i # todo) (min_ix, next_min, op_cnt) =
     (if i = min_ix then merge_scan page its todo (min_ix, next_min, op_cnt)
      else if its ! i \<noteq> [] then
        (case its ! min_ix of
           [] \<Rightarrow> Inl Deref_end
         | m # _ \<Rightarrow>
             if less_than (hd (its ! i)) m page
             then merge_scan page its todo (i, min_ix, op_cnt + 1)
             else merge_scan page its todo (min_ix, i, op_cnt + 1))
      else merge_scan page its todo (min_ix, next_min, op_cnt))"

text \<open>Reading \<open>iter[i]\<close>: the element and the advanced iterator.\<close>

definition iter_deref :: "MapType list \<Rightarrow> nat \<Rightarrow> ((KeyType \<times> EntryOffset) \<times> MapType) option" where
  "iter_deref its i =
     (if i < length its then (case its ! i of [] \<Rightarrow> None | e # rest \<Rightarrow> Some (e, rest))
      else None)"

text \<open>The \<^verbatim>\<open>while(true)\<close> loop of lines 210-230; the result is the list of offsets put
  into the sink.\<close>

function merge_loop :: "PageHeader \<Rightarrow> MapType list \<Rightarrow> nat \<Rightarrow> fault + EntryOffset list" where
  "merge_loop page its next_min =
     (case merge_scan page its [0..<length its] (next_min, next_min, 0) of
        Inl f \<Rightarrow> Inl f
      | Inr (min_ix, next_min', op_cnt) \<Rightarrow>
          if op_cnt = 0 then Inr []
          else (case iter_deref its min_ix of
                  None \<Rightarrow> Inl Deref_end
                | Some (e, rest) \<Rightarrow>
                    map_sum id ((#) (snd e)) (merge_loop page (its[min_ix := rest]) next_min')))"
  by pat_completeness auto

termination merge_loop
proof (relation "measure (\<lambda>(page, its, next_min). sum_list (map length its))")
  show "wf (measure (\<lambda>(page, its, next_min). sum_list (map length its)))"
    by simp
next
  fix page :: PageHeader and its :: "MapType list" and next_min :: nat
  fix x2 x y x2a xa ya x2b min_e xb yb
  assume "iter_deref its x = Some x2b" and "(xb, yb) = x2b"
  then have pos: "x < length its" and cur: "its ! x = xb # yb"
    by (auto simp: iter_deref_def split: if_splits list.splits)
  have advance: "i < length l \<Longrightarrow> l ! i = e # r \<Longrightarrow>
      sum_list (map length (l[i := r])) < sum_list (map length l)"
    for i e r and l :: "MapType list"
  proof (induction l arbitrary: i)
    case Nil
    then show ?case by simp
  next
    case (Cons a l)
    then show ?case by (cases i) auto
  qed
  from pos cur show "((page, its[x := yb], xa), page, its, next_min)
             \<in> measure (\<lambda>(page, its, next_min). sum_list (map length its))"
    by (simp add: advance)
qed

text \<open>
  \<^verbatim>\<open>Bucket::merge\<close>. The \<^verbatim>\<open>assert\<close> of line 239 is compiled out (NDEBUG). With no shard
  at all the source reads \<^verbatim>\<open>iter[0]\<close> of an empty array.
\<close>

definition Bucket_merge :: "Bucket \<Rightarrow> PageHeader \<Rightarrow> fault + (aku_status \<times> cursor_event list)" where
  "Bucket_merge b page =
     (if state b = 0 then Inr (AKU_EBUSY, [])
      else if rrindex b = 0 then Inr (AKU_SUCCESS, [])
      else
        (let n = length (seq b); its = map seq_data (seq b)
         in if n > 1
            then (case merge_loop page its 0 of
                    Inl f \<Rightarrow> Inl f
                  | Inr offs \<Rightarrow> Inr (AKU_SUCCESS, map Put offs))
            else if n = 1 then Inr (AKU_SUCCESS, map (\<lambda>e. Put (snd e)) (its ! 0))
            else Inl Deref_end))"

subsection \<open>Cache\<close>

text \<open>
  The macros \<^verbatim>\<open>AKU_LIMITS_MAX_CACHES\<close>, \<^verbatim>\<open>AKU_CACHE_POPULATION\<close> and
  \<^verbatim>\<open>AKU_LIMITS_MIN_TTL\<close> are defined in akumuli_def.h, which is missing: they are
  parameters of the model.
\<close>

record limits =
  max_caches :: nat
  cache_population :: nat
  min_ttl :: int

text \<open>
  \<^verbatim>\<open>buckets_\<close> only stores the buckets; every bucket is linked into exactly one of
  \<^verbatim>\<open>cache_\<close> (\<open>cache_list\<close>, the active window, newest first) and \<^verbatim>\<open>free_list_\<close>,
  so the two lists carry the whole state. \<^verbatim>\<open>baseline_\<close> is \<open>cache_baseline\<close>.
\<close>

record Cache =
  ttl :: int
  max_size :: nat
  bucket_size :: nat
  cache_baseline :: int
  shift :: nat
  cache_list :: "Bucket list"
  free_list :: "Bucket list"

text \<open>\<^verbatim>\<open>mark_last\<close>, lines 288-296: the iterator is moved \<open>n\<close> places back from
  \<^verbatim>\<open>end()\<close> and every bucket from there on has its state incremented.\<close>

definition mark_last :: "Bucket list \<Rightarrow> nat \<Rightarrow> fault + Bucket list" where
  "mark_last container n =
     (if n > length container then Inl Advance_before_begin
      else Inr (take (length container - n) container
                @ map (\<lambda>b. b\<lparr>state := state b + 1\<rparr>)
                    (drop (length container - n) container)))"

text \<open>
  \<^verbatim>\<open>Cache::allocate_from_free_list\<close>, lines 298-314. New buckets get the baselines
  \<open>bl + i\<close>; a bucket that was already in the free list is moved as it is.

  Modelled from the spec: the list type of \<^verbatim>\<open>cache_\<close> and \<^verbatim>\<open>free_list_\<close> is declared in
  cache.h, which is missing. Line 313 names the range by iterators into \<^verbatim>\<open>free_list_\<close>
  and the position by \<^verbatim>\<open>cache_.begin()\<close>; the splice relinks the nodes of the range
  before the node of the position, which is what the spec describes: the first \<open>nnew\<close>
  buckets of the free list, in their order, become the front of the active window.
  \<^verbatim>\<open>size()\<close> of a list is the number of buckets linked into it.
\<close>

definition allocate_from_free_list :: "nat \<Rightarrow> int \<Rightarrow> Cache \<Rightarrow> Cache" where
  "allocate_from_free_list nnew bl c =
     (let n = length (free_list c);
          fl = (if n < nnew
                then free_list c
                     @ map (\<lambda>i. Bucket_new (bucket_size c) (max_size c) (bl + int i))
                         [0..<nnew - n]
                else free_list c)
      in c\<lparr>cache_list := take nnew fl @ cache_list c, free_list := drop nnew fl\<rparr>)"

text \<open>The binary logarithm of line 263, truncated to an integer.\<close>

fun floor_log2 :: "nat \<Rightarrow> nat" where
  "floor_log2 n = (if n < 2 then 0 else Suc (floor_log2 (n div 2)))"

text \<open>
  The constructor, lines 246-267. \<^verbatim>\<open>shift_\<close> takes the \<^verbatim>\<open>log2\<close> of the TTL as a double,
  cut to an \<^verbatim>\<open>int\<close>, and line 264 shifts the 32-bit integer 1 by it and reads the result
  as signed.
  \<^item> A TTL that is not positive has the logarithm minus infinity or no number; its
    conversion to \<^verbatim>\<open>int\<close> is not defined.
  \<^item> For \<open>0 < ttl < 2 ^ 32\<close> the TTL is a double without rounding and its logarithm, cut,
    is \<open>floor_log2 ttl\<close>, at most 31. At 31 the shifted word is negative, so the test of
    line 264 holds and the constructor throws.
  \<^item> From \<open>2 ^ 32\<close> on the logarithm is 32 or more whatever the rounding, and the shift of
    line 264 is not defined.
  \<open>Inr None\<close> is the exception of line 265.
\<close>

definition Cache_new :: "limits \<Rightarrow> nat \<Rightarrow> int \<Rightarrow> nat \<Rightarrow> fault + Cache option" where
  "Cache_new lim nshards ttl_value size_hint =
     (let c0 = \<lparr>ttl = ttl_value, max_size = size_hint, bucket_size = nshards,
                cache_baseline = 0, shift = 0, cache_list = [],
                free_list = map (\<lambda>i. Bucket_new nshards size_hint (0 + int i))
                              [0..<cache_population lim]\<rparr>;
          c1 = allocate_from_free_list (max_caches lim) 0 c0;
          sh = floor_log2 (nat ttl_value)
      in if ttl_value \<le> 0 then Inl Log_not_a_number
         else if 32 \<le> sh then Inl Shift_too_wide
         else if sint (push_bit sh (1 :: 32 word)) < min_ttl lim then Inr None
         else Inr (Some (c1\<lparr>shift := sh\<rparr>)))"

text \<open>\<^verbatim>\<open>std::find_if\<close> over the window: the position of the first bucket that satisfies
  the predicate, \<open>None\<close> for \<^verbatim>\<open>cache_.end()\<close>.\<close>

fun find_if :: "(Bucket \<Rightarrow> bool) \<Rightarrow> Bucket list \<Rightarrow> nat option" where
  "find_if P [] = None"
| "find_if P (b # bs) = (if P b then Some 0 else map_option Suc (find_if P bs))"

text \<open>Line 377, \<^verbatim>\<open>target->add(ts, pid, offset)\<close>, for the bucket at position \<open>i\<close> of
  the window.\<close>

definition add_to_target ::
  "nat \<Rightarrow> bool \<Rightarrow> bool \<Rightarrow> TimeStamp \<Rightarrow> ParamId \<Rightarrow> EntryOffset \<Rightarrow> nat \<Rightarrow> Cache \<Rightarrow> nat
     \<Rightarrow> fault + (aku_status \<times> nat \<times> Cache)" where
  "add_to_target cpuix lock_ok tmp_ok ts pid offset nswapped c i =
     (case Bucket_add cpuix lock_ok tmp_ok ts pid offset (cache_list c ! i) of
        Inl f \<Rightarrow> Inl f
      | Inr r \<Rightarrow> Inr (fst r, nswapped, c\<lparr>cache_list := (cache_list c)[i := snd r]\<rparr>))"

text \<open>The future-write branch, lines 345-366, up to the second \<^verbatim>\<open>find_if\<close>: the new
  value of \<^verbatim>\<open>*nswapped\<close> and the cache after marking and allocating.\<close>

definition slide_window :: "limits \<Rightarrow> int \<Rightarrow> nat \<Rightarrow> nat \<Rightarrow> Cache \<Rightarrow> fault + (nat \<times> Cache)" where
  "slide_window lim bucket_index count nswapped c =
     (let c1 = c\<lparr>cache_baseline := bucket_index\<rparr>
      in if count \<ge> max_caches lim then
           (let recycle_cnt = max_caches lim
            in case mark_last (cache_list c1) recycle_cnt of
                 Inl f \<Rightarrow> Inl f
               | Inr marked \<Rightarrow>
                   Inr (nswapped + recycle_cnt,
                        allocate_from_free_list recycle_cnt
                          (cache_baseline c1 - int recycle_cnt)
                          (c1\<lparr>cache_list := marked\<rparr>)))
         else
           (let freeslots = max_caches lim - count;
                curr_cache_size = length (cache_list c1)
            in if freeslots < curr_cache_size then
                 (let recycle_cnt = curr_cache_size - freeslots
                  in case mark_last (cache_list c1) recycle_cnt of
                       Inl f \<Rightarrow> Inl f
                     | Inr marked \<Rightarrow>
                         Inr (nswapped + recycle_cnt,
                              allocate_from_free_list count (cache_baseline c1 - int count)
                                (c1\<lparr>cache_list := marked\<rparr>)))
               else Inr (nswapped,
                         allocate_from_free_list count (cache_baseline c1 - int count) c1)))"

text \<open>
  \<^verbatim>\<open>Cache::add_entry_\<close>, lines 316-378. \<open>nswapped\<close> is the value behind the
  out-parameter before the call; the result holds the status, the value behind the
  out-parameter after the call and the cache. \<^verbatim>\<open>ts.value >> shift_\<close> is the division
  by \<open>2 ^ shift\<close> rounded down.
\<close>

definition Cache_add_entry ::
  "limits \<Rightarrow> nat \<Rightarrow> bool \<Rightarrow> bool \<Rightarrow> TimeStamp \<Rightarrow> ParamId \<Rightarrow> EntryOffset \<Rightarrow> nat \<Rightarrow> Cache
     \<Rightarrow> fault + (aku_status \<times> nat \<times> Cache)" where
  "Cache_add_entry lim cpuix lock_ok tmp_ok ts pid offset nswapped c =
     (let bucket_index = ts div 2 ^ shift c;
          index = cache_baseline c - bucket_index;
          wanted = (\<lambda>b. state b = 0 \<and> baseline b = bucket_index)
      in if index \<ge> 0 then
           (if index = 0 then
              (if cache_list c = [] then Inl Front_of_empty
               else add_to_target cpuix lock_ok tmp_ok ts pid offset nswapped c 0)
            else
              (case find_if wanted (cache_list c) of
                 None \<Rightarrow> Inr (AKU_EOVERFLOW, nswapped, c)
               | Some i \<Rightarrow> add_to_target cpuix lock_ok tmp_ok ts pid offset nswapped c i))
         else
           (case slide_window lim bucket_index (nat (0 - index)) nswapped c of
              Inl f \<Rightarrow> Inl f
            | Inr (nswapped', c') \<Rightarrow>
                (case find_if wanted (cache_list c') of
                   None \<Rightarrow> Inr (AKU_EGENERAL, nswapped', c')
                 | Some i \<Rightarrow>
                     add_to_target cpuix lock_ok tmp_ok ts pid offset nswapped' c' i)))"

text \<open>
  \<^verbatim>\<open>Cache::clear\<close>, lines 388-392: the whole window is relinked in front of the free
  list (the splice is read as in \<open>allocate_from_free_list\<close>); no bucket is touched.
\<close>

definition Cache_clear :: "Cache \<Rightarrow> Cache" where
  "Cache_clear c = c\<lparr>free_list := cache_list c @ free_list c, cache_list := []\<rparr>"

subsection \<open>Runs of adds, and what the claims compare a search with\<close>

text \<open>A run of \<^verbatim>\<open>Sequence::add\<close> calls, each with the outcome of its two
  \<^verbatim>\<open>try_lock()\<close> calls, the time, the parameter and the offset.\<close>

fun Sequence_adds ::
  "(bool \<times> bool \<times> TimeStamp \<times> ParamId \<times> EntryOffset) list \<Rightarrow> Sequence \<Rightarrow> Sequence" where
  "Sequence_adds [] s = s"
| "Sequence_adds ((lock_ok, tmp_ok, ts, p, off) # rest) s =
     Sequence_adds rest (snd (Sequence_add lock_ok tmp_ok ts p off s))"

text \<open>Adds that meet no other lock holder: both \<^verbatim>\<open>try_lock()\<close> calls succeed.\<close>

definition uncontended ::
  "(TimeStamp \<times> ParamId \<times> EntryOffset) list \<Rightarrow> (bool \<times> bool \<times> TimeStamp \<times> ParamId \<times> EntryOffset) list" where
  "uncontended adds = map (\<lambda>a. (True, True, a)) adds"

definition key_of :: "TimeStamp \<times> ParamId \<times> EntryOffset \<Rightarrow> KeyType" where
  "key_of a = (fst a, fst (snd a))"

definition to_entry :: "TimeStamp \<times> ParamId \<times> EntryOffset \<Rightarrow> KeyType \<times> EntryOffset" where
  "to_entry a = (key_of a, snd (snd a))"

text \<open>The invariant of \<^verbatim>\<open>data_\<close>: keys strictly ascending, so no key twice.\<close>

definition keys_ascending :: "MapType \<Rightarrow> bool" where
  "keys_ascending m = sorted_wrt (<) (map fst m)"

text \<open>The added entries in ascending key order, and the ranges of a query: the one the
  forward loop scans, the one the backward loop scans, and the closed one.\<close>

definition ascending_entries :: "(TimeStamp \<times> ParamId \<times> EntryOffset) list \<Rightarrow> MapType" where
  "ascending_entries adds = sort_key fst (map to_entry adds)"

definition in_forward_range :: "SingleParameterSearchQuery \<Rightarrow> KeyType \<times> EntryOffset \<Rightarrow> bool" where
  "in_forward_range q e =
     (lowerbound q \<le> fst (fst e) \<and> fst (fst e) < upperbound q \<and> snd (fst e) = param q)"

definition in_backward_range :: "SingleParameterSearchQuery \<Rightarrow> KeyType \<times> EntryOffset \<Rightarrow> bool" where
  "in_backward_range q e =
     (lowerbound q < fst (fst e) \<and> fst (fst e) \<le> upperbound q \<and> snd (fst e) = param q)"

definition in_closed_range :: "SingleParameterSearchQuery \<Rightarrow> KeyType \<times> EntryOffset \<Rightarrow> bool" where
  "in_closed_range q e =
     (lowerbound q \<le> fst (fst e) \<and> fst (fst e) \<le> upperbound q \<and> snd (fst e) = param q)"

text \<open>What a valid search delivers if the range \<open>[lo, hi]\<close> is taken as closed:
  the offsets of the entries in it, ascending for forward and descending for backward, then
  completion.\<close>

definition claimed_search_result ::
  "(TimeStamp \<times> ParamId \<times> EntryOffset) list \<Rightarrow> SingleParameterSearchQuery \<Rightarrow> cursor_event list" where
  "claimed_search_result adds q =
     (let hits = map (\<lambda>e. Put (snd e)) (filter (in_closed_range q) (ascending_entries adds))
      in (if direction q = AKU_CURSOR_DIR_FORWARD then hits else rev hits) @ [Complete])"

subsection \<open>Runs of cache operations\<close>

text \<open>A call of \<^verbatim>\<open>Cache::add_entry\<close> with the CPU index and the lock outcomes it meets,
  or a call of \<^verbatim>\<open>Cache::clear\<close>. A run threads the cache and the counter behind
  \<^verbatim>\<open>nswapped\<close> through the calls and collects the statuses.\<close>

datatype cache_op = Add nat bool bool TimeStamp ParamId EntryOffset | Clear

fun Cache_run ::
  "limits \<Rightarrow> cache_op list \<Rightarrow> nat \<Rightarrow> Cache \<Rightarrow> fault + (aku_status list \<times> nat \<times> Cache)" where
  "Cache_run lim [] nswapped c = Inr ([], nswapped, c)"
| "Cache_run lim (Clear # ops) nswapped c = Cache_run lim ops nswapped (Cache_clear c)"
| "Cache_run lim (Add cpuix lock_ok tmp_ok ts pid off # ops) nswapped c =
     (case Cache_add_entry lim cpuix lock_ok tmp_ok ts pid off nswapped c of
        Inl f \<Rightarrow> Inl f
      | Inr r \<Rightarrow>
          map_sum id (\<lambda>rest. (fst r # fst rest, snd rest))
            (Cache_run lim ops (fst (snd r)) (snd (snd r))))"

text \<open>The overflow claim speaks of a target bucket index that is less than the baseline
  of every live bucket of the window.\<close>

definition older_than_live :: "Cache \<Rightarrow> TimeStamp \<Rightarrow> bool" where
  "older_than_live c ts =
     (\<forall>b\<in>set (cache_list c). state b = 0 \<longrightarrow> ts div 2 ^ shift c < baseline b)"

subsection \<open>Concrete inputs\<close>

text \<open>An entry reader under which the entry at offset \<open>o\<close> has time \<open>o\<close> and
  parameter 1.\<close>

definition entries_page :: PageHeader where
  "entries_page off = (uint off, 1)"

text \<open>A bucket of two shards after three adds: time 1 and time 3 from CPU 0, time 2 from
  CPU 1, every entry stored under the key the reader resolves its offset to.\<close>

definition filled_bucket :: Bucket where
  "filled_bucket =
     foldl (\<lambda>b (cpuix, ts, p, off).
              case Bucket_add cpuix True True ts p off b of Inl f \<Rightarrow> b | Inr r \<Rightarrow> snd r)
       (Bucket_new 2 100 0) [(0, 1, 1, 1), (1, 2, 1, 2), (0, 3, 1, 3)]"

text \<open>The same bucket once \<open>mark_last\<close> has retired it.\<close>

definition retired_bucket :: Bucket where
  "retired_bucket =
     (case mark_last [filled_bucket] 1 of Inl f \<Rightarrow> filled_bucket | Inr bs \<Rightarrow> hd bs)"

text \<open>A new shard after uncontended adds, queries in either direction, and the adds of
  the runs below (time, parameter, offset).\<close>

definition shard_of :: "(TimeStamp \<times> ParamId \<times> EntryOffset) list \<Rightarrow> Sequence" where
  "shard_of adds = Sequence_adds (uncontended adds) (Sequence_new 100)"

definition forward_query :: "TimeStamp \<Rightarrow> TimeStamp \<Rightarrow> ParamId \<Rightarrow> SingleParameterSearchQuery" where
  "forward_query lo hi p =
     \<lparr>lowerbound = lo, upperbound = hi, param = p, direction = AKU_CURSOR_DIR_FORWARD\<rparr>"

definition backward_query :: "TimeStamp \<Rightarrow> TimeStamp \<Rightarrow> ParamId \<Rightarrow> SingleParameterSearchQuery" where
  "backward_query lo hi p =
     \<lparr>lowerbound = lo, upperbound = hi, param = p, direction = AKU_CURSOR_DIR_BACKWARD\<rparr>"

definition five_adds :: "(TimeStamp \<times> ParamId \<times> EntryOffset) list" where
  "five_adds = [(1023, 1, 30), (0, 1, 10), (2000, 1, 40), (1, 1, 20), (1, 2, 50)]"

definition one_add :: "(TimeStamp \<times> ParamId \<times> EntryOffset) list" where
  "one_add = [(5, 1, 7)]"

definition three_adds :: "(TimeStamp \<times> ParamId \<times> EntryOffset) list" where
  "three_adds = [(0, 1, 10), (1, 1, 20), (1023, 1, 30)]"

definition first_add :: "(bool \<times> bool \<times> TimeStamp \<times> ParamId \<times> EntryOffset) list" where
  "first_add = [(True, True, 5, 1, 7)]"

text \<open>A cache with a window of three buckets, a pool of six, two shards per bucket and a
  TTL of 1024 (shift 10), and what is looked at after a run of calls on it.\<close>

definition small_limits :: limits where
  "small_limits = \<lparr>max_caches = 3, cache_population = 6, min_ttl = 2\<rparr>"

definition put_entry :: "TimeStamp \<Rightarrow> ParamId \<Rightarrow> EntryOffset \<Rightarrow> cache_op" where
  "put_entry ts pid off = Add 0 True True ts pid off"

definition after_ops :: "cache_op list \<Rightarrow> (aku_status list \<times> nat \<times> Cache) option" where
  "after_ops ops =
     (case Cache_new small_limits 2 1024 100 of
        Inl f \<Rightarrow> None
      | Inr None \<Rightarrow> None
      | Inr (Some c) \<Rightarrow>
          (case Cache_run small_limits ops 0 c of Inl f \<Rightarrow> None | Inr r \<Rightarrow> Some r))"

definition bucket_view :: "Bucket \<Rightarrow> int \<times> int \<times> MapType" where
  "bucket_view b = (baseline b, state b, concat (map seq_data (seq b)))"

definition observe ::
  "(aku_status list \<times> nat \<times> Cache) option
   \<Rightarrow> (aku_status list \<times> nat \<times> int \<times> (int \<times> int \<times> MapType) list \<times> (int \<times> int \<times> MapType) list) option" where
  "observe r =
     map_option (\<lambda>(sts, n, c). (sts, n, cache_baseline c, map bucket_view (cache_list c),
                                  map bucket_view (free_list c))) r"

definition swapped_count :: "(aku_status list \<times> nat \<times> Cache) option \<Rightarrow> nat option" where
  "swapped_count r = map_option (\<lambda>x. fst (snd x)) r"

definition retired_total :: "(aku_status list \<times> nat \<times> Cache) option \<Rightarrow> nat option" where
  "retired_total r =
     map_option (\<lambda>x. length (filter (\<lambda>b. state b \<noteq> 0)
                                  (cache_list (snd (snd x)) @ free_list (snd (snd x))))) r"

definition live_in_window :: "(aku_status list \<times> nat \<times> Cache) option \<Rightarrow> nat option" where
  "live_in_window r =
     map_option (\<lambda>x. length (filter (\<lambda>b. state b = 0) (cache_list (snd (snd x))))) r"

definition window_states :: "(aku_status list \<times> nat \<times> Cache) option \<Rightarrow> (int \<times> int) list option" where
  "window_states r =
     map_option (\<lambda>x. map (\<lambda>b. (baseline b, state b)) (cache_list (snd (snd x)))) r"

definition search_window_bucket ::
  "(aku_status list \<times> nat \<times> Cache) option \<Rightarrow> nat \<Rightarrow> SingleParameterSearchQuery
   \<Rightarrow> (fault + cursor_event list) option" where
  "search_window_bucket r i q =
     (case r of
        None \<Rightarrow> None
      | Some x \<Rightarrow>
          if i < length (cache_list (snd (snd x)))
          then Some (Bucket_search (cache_list (snd (snd x)) ! i) q) else None)"

definition four_slides :: "cache_op list" where
  "four_slides = [put_entry 1024 1 7, put_entry 2048 1 8, put_entry 3072 1 9, put_entry 4096 1 10]"

definition reuse_ops :: "cache_op list" where
  "reuse_ops = [put_entry 0 1 42, put_entry 1024 1 7, Clear, put_entry 3072 1 9]"

definition stale_ops :: "cache_op list" where
  "stale_ops = [put_entry 1024 1 7, Clear, put_entry 2048 1 8]"

definition stale_cache :: Cache where
  "stale_cache =
     (case after_ops stale_ops of
        Some r \<Rightarrow> snd (snd r)
      | None \<Rightarrow> \<lparr>ttl = 0, max_size = 0, bucket_size = 0, cache_baseline = 0, shift = 0,
                  cache_list = [], free_list = []\<rparr>)"

declare search_backward_loop.simps [simp del]
declare search_backward_unchecked.simps [simp del]
declare merge_loop.simps [simp del]
declare floor_log2.simps [simp del]

section \<open>Sequence: the ordered map\<close>

lemma fst_to_entry: "fst (to_entry a) = key_of a"
  by (simp add: to_entry_def)

lemma keys_map_insert: "fst ` set (map_insert k v m) = insert k (fst ` set m)"
  by (induction k v m rule: map_insert.induct) (auto split: if_splits)

lemma set_map_insert_new:
  "k \<notin> fst ` set m \<Longrightarrow> set (map_insert k v m) = insert (k, v) (set m)"
  by (induction k v m rule: map_insert.induct) (auto split: if_splits)

lemma keys_ascending_map_insert:
  "keys_ascending m \<Longrightarrow> keys_ascending (map_insert k v m)"
proof (induction m)
  case Nil
  then show ?case by (simp add: keys_ascending_def)
next
  case (Cons e m)
  obtain k' v' where e: "e = (k', v')" by (cases e)
  from Cons.prems have tl: "keys_ascending m" and hd: "\<forall>x\<in>set m. k' < fst x"
    by (auto simp: keys_ascending_def e)
  show ?case
  proof (cases "k < k'")
    case True
    with Cons.prems show ?thesis
      by (auto simp: keys_ascending_def e)
  next
    case False
    show ?thesis
    proof (cases "k = k'")
      case True
      with Cons.prems show ?thesis by (simp add: e)
    next
      case neq: False
      with False have "k' < k" by simp
      moreover from Cons.IH tl have "keys_ascending (map_insert k v m)" .
      ultimately show ?thesis
        using False neq hd keys_map_insert [of k v m]
        by (auto simp: keys_ascending_def e)
    qed
  qed
qed

lemma map_of_map_insert_present:
  "keys_ascending m \<Longrightarrow> map_of m k' = Some v' \<Longrightarrow> map_of (map_insert k v m) k' = Some v'"
proof (induction m)
  case Nil
  then show ?case by simp
next
  case (Cons e m)
  obtain a b where e: "e = (a, b)" by (cases e)
  from Cons.prems(1) have tl: "keys_ascending m" and hd: "\<forall>x\<in>set m. a < fst x"
    by (auto simp: keys_ascending_def e)
  show ?case
  proof (cases "k < a")
    case True
    have "k \<noteq> k'"
    proof
      assume "k = k'"
      with Cons.prems(2) True e have "map_of m k = Some v'" by (auto split: if_splits)
      then have "(k, v') \<in> set m" by (rule map_of_SomeD)
      with hd have "a < k" by force
      with True show False by simp
    qed
    with True Cons.prems(2) show ?thesis by (simp add: e)
  next
    case False
    with Cons.prems(2) Cons.IH [OF tl] show ?thesis
      by (auto simp: e split: if_splits)
  qed
qed

lemma keys_ascending_drain: "keys_ascending m \<Longrightarrow> keys_ascending (drain_temp t m)"
  by (induction t m rule: drain_temp.induct) (auto simp: keys_ascending_map_insert)

lemma map_of_drain_present:
  "keys_ascending m \<Longrightarrow> map_of m k' = Some v' \<Longrightarrow> map_of (drain_temp t m) k' = Some v'"
  by (induction t m rule: drain_temp.induct)
     (auto simp: keys_ascending_map_insert map_of_map_insert_present)

lemma keys_ascending_add:
  "keys_ascending (seq_data s) \<Longrightarrow>
   keys_ascending (seq_data (snd (Sequence_add lock_ok tmp_ok ts p off s)))"
  by (simp add: Sequence_add_def Let_def keys_ascending_map_insert keys_ascending_drain)

lemma keys_ascending_adds:
  "keys_ascending (seq_data s) \<Longrightarrow> keys_ascending (seq_data (Sequence_adds ops s))"
  by (induction ops s rule: Sequence_adds.induct) (auto simp: keys_ascending_add)

lemma keys_ascending_new: "keys_ascending (seq_data (Sequence_new cap))"
  by (simp add: Sequence_new_def keys_ascending_def)

lemma map_of_add_present:
  "keys_ascending (seq_data s) \<Longrightarrow> map_of (seq_data s) k = Some v \<Longrightarrow>
   map_of (seq_data (snd (Sequence_add lock_ok tmp_ok ts p off s))) k = Some v"
  by (simp add: Sequence_add_def Let_def keys_ascending_drain
      map_of_map_insert_present map_of_drain_present)


lemma key_below_lower: "(fst e < (lo :: TimeStamp, 0 :: ParamId)) = (fst (fst e) < lo)"
  by (cases e) (auto simp: less_prod_def)

lemma key_upto_upper: "(fst e \<le> (ub :: TimeStamp, - 1 :: ParamId)) = (fst (fst e) \<le> ub)"
  by (cases e) (auto simp: less_eq_prod_def)

lemma keys_ascending_Cons:
  "keys_ascending (e # m) = (keys_ascending m \<and> (\<forall>x\<in>set m. fst e < fst x))"
  by (auto simp: keys_ascending_def)

lemma key_less_time_le: "(k :: KeyType) < k' \<Longrightarrow> fst k \<le> fst k'"
  by (cases k, cases k') (auto simp: less_prod_def)

lemma forward_loop_filter:
  "keys_ascending m \<Longrightarrow>
   search_forward_loop q m
   = map (\<lambda>e. Put (snd e))
       (filter (\<lambda>e. fst (fst e) < upperbound q \<and> snd (fst e) = param q) m)"
proof (induction m)
  case Nil
  then show ?case by simp
next
  case (Cons e m)
  obtain k v where e: "e = (k, v)" by (cases e)
  from Cons.prems have tl: "keys_ascending m" and hd: "\<forall>x\<in>set m. k < fst x"
    by (auto simp: keys_ascending_Cons e)
  show ?case
  proof (cases "upperbound q \<le> fst k")
    case True
    have "\<forall>x\<in>set m. \<not> fst (fst x) < upperbound q"
    proof
      fix x assume "x \<in> set m"
      with hd have "fst k \<le> fst (fst x)" by (auto intro: key_less_time_le)
      with True show "\<not> fst (fst x) < upperbound q" by simp
    qed
    then have "filter (\<lambda>e. fst (fst e) < upperbound q \<and> snd (fst e) = param q) m = []"
      by (simp add: filter_empty_conv)
    with True show ?thesis by (simp add: e)
  next
    case False
    with Cons.IH [OF tl] show ?thesis by (simp add: e)
  qed
qed

lemma filter_from_lower_bound:
  "keys_ascending m \<Longrightarrow>
   filter (\<lambda>e. lo \<le> fst (fst e) \<and> Q e) m
   = filter Q (dropWhile (\<lambda>e. fst e < (lo, 0)) m)"
proof (induction m)
  case Nil
  then show ?case by simp
next
  case (Cons e m)
  from Cons.prems have tl: "keys_ascending m" and hd: "\<forall>x\<in>set m. fst e < fst x"
    by (auto simp: keys_ascending_Cons)
  show ?case
  proof (cases "fst (fst e) < lo")
    case True
    with Cons.IH [OF tl] show ?thesis by (simp add: key_below_lower)
  next
    case False
    have "\<forall>x\<in>set (e # m). lo \<le> fst (fst x)"
    proof
      fix x assume "x \<in> set (e # m)"
      then have "fst (fst e) \<le> fst (fst x)"
        using hd by (auto intro: key_less_time_le)
      with False show "lo \<le> fst (fst x)" by simp
    qed
    then have "filter (\<lambda>e. lo \<le> fst (fst e) \<and> Q e) (e # m) = filter Q (e # m)"
      by (intro filter_cong) auto
    with False show ?thesis by (simp add: key_below_lower)
  qed
qed

lemma keys_ascending_dropWhile: "keys_ascending m \<Longrightarrow> keys_ascending (dropWhile P m)"
  by (induction m) (auto simp: keys_ascending_Cons)

lemma forward_search_result:
  assumes asc: "keys_ascending (seq_data s)"
    and valid: "lowerbound q \<le> upperbound q" "direction q = AKU_CURSOR_DIR_FORWARD"
  shows "Sequence_search s q
   = Inr (map (\<lambda>e. Put (snd e))
            (filter (\<lambda>e. lowerbound q \<le> fst (fst e) \<and> fst (fst e) < upperbound q
                          \<and> snd (fst e) = param q) (seq_data s))
          @ [Complete])"
proof -
  let ?P = "\<lambda>e :: KeyType \<times> EntryOffset. fst e < (lowerbound q, 0)"
  have "drop (lower_bound (lowerbound q, 0) (seq_data s)) (seq_data s)
        = dropWhile ?P (seq_data s)"
    by (simp add: lower_bound_def dropWhile_eq_drop)
  moreover have "search_forward_loop q (dropWhile ?P (seq_data s))
        = map (\<lambda>e. Put (snd e))
            (filter (\<lambda>e. fst (fst e) < upperbound q \<and> snd (fst e) = param q)
               (dropWhile ?P (seq_data s)))"
    using asc by (intro forward_loop_filter keys_ascending_dropWhile)
  moreover have "filter (\<lambda>e. lowerbound q \<le> fst (fst e) \<and> fst (fst e) < upperbound q
                          \<and> snd (fst e) = param q) (seq_data s)
        = filter (\<lambda>e. fst (fst e) < upperbound q \<and> snd (fst e) = param q)
            (dropWhile ?P (seq_data s))"
    using asc by (rule filter_from_lower_bound)
  ultimately show ?thesis
    using valid
    by (simp add: Sequence_search_def Let_def AKU_CURSOR_DIR_FORWARD_def
        AKU_CURSOR_DIR_BACKWARD_def)
qed


lemma backward_loop_result:
  assumes asc: "keys_ascending m"
  shows "i < length m \<Longrightarrow>
   search_backward_loop q m i
   = Inr (map (\<lambda>e. Put (snd e))
            (rev (filter (\<lambda>e. lowerbound q < fst (fst e) \<and> fst (fst e) \<le> upperbound q
                               \<and> snd (fst e) = param q) (take (Suc i) m))))"
proof (induction i)
  case 0
  then have "take (Suc 0) m = [m ! 0]"
    by (cases m) auto
  with 0 show ?case
    by (simp add: search_backward_loop.simps [of q m 0] Let_def)
next
  case (Suc i)
  let ?Q = "\<lambda>e :: KeyType \<times> EntryOffset. lowerbound q < fst (fst e)
      \<and> fst (fst e) \<le> upperbound q \<and> snd (fst e) = param q"
  from Suc.prems have split: "take (Suc (Suc i)) m = take (Suc i) m @ [m ! Suc i]"
    by (simp add: take_Suc_conv_app_nth)
  show ?case
  proof (cases "fst (fst (m ! Suc i)) \<le> lowerbound q")
    case True
    have "\<forall>x\<in>set (take (Suc (Suc i)) m). \<not> ?Q x"
    proof
      fix x assume "x \<in> set (take (Suc (Suc i)) m)"
      then obtain j where j: "j < Suc (Suc i)" "x = m ! j"
        using Suc.prems by (auto simp: in_set_conv_nth)
      have "fst (fst x) \<le> fst (fst (m ! Suc i))"
      proof (cases "j = Suc i")
        case True
        with j show ?thesis by simp
      next
        case False
        with j have "j < Suc i" by simp
        with asc Suc.prems have "map fst m ! j < map fst m ! Suc i"
          by (intro sorted_wrt_nth_less) (simp_all add: keys_ascending_def)
        with Suc.prems \<open>j < Suc i\<close> have "fst (m ! j) < fst (m ! Suc i)"
          by simp
        with j show ?thesis by (auto intro: key_less_time_le)
      qed
      with True show "\<not> ?Q x" by simp
    qed
    then have "filter ?Q (take (Suc (Suc i)) m) = []"
      by (simp add: filter_empty_conv)
    with True Suc.prems show ?thesis
      by (simp add: search_backward_loop.simps [of q m "Suc i"] Let_def)
  next
    case False
    from Suc.prems have "i < length m" by simp
    from Suc.IH [OF this] False Suc.prems show ?thesis
      by (simp add: search_backward_loop.simps [of q m "Suc i"] Let_def split)
  qed
qed

lemma beyond_upper_bound:
  "keys_ascending m \<Longrightarrow> x \<in> set (dropWhile (\<lambda>e. fst e \<le> k) m) \<Longrightarrow> \<not> fst x \<le> k"
proof (induction m)
  case Nil
  then show ?case by simp
next
  case (Cons e m)
  from Cons.prems(1) have tl: "keys_ascending m" and hd: "\<forall>y\<in>set m. fst e < fst y"
    by (auto simp: keys_ascending_Cons)
  show ?case
  proof (cases "fst e \<le> k")
    case True
    with Cons.prems(2) Cons.IH [OF tl] show ?thesis by simp
  next
    case False
    with Cons.prems(2) have "x = e \<or> x \<in> set m" by simp
    with hd have "fst e \<le> fst x" by auto
    with False show ?thesis by auto
  qed
qed

lemma upper_bound_is_end:
  "(upper_bound k m = length m) = (\<forall>e\<in>set m. fst e \<le> k)"
proof -
  have "(length (takeWhile P m) = length m) = (\<forall>e\<in>set m. P e)"
    for P :: "KeyType \<times> EntryOffset \<Rightarrow> bool"
  proof (induction m)
    case Nil
    then show ?case by simp
  next
    case (Cons e m)
    then show ?case by (cases "P e") auto
  qed
  then show ?thesis
    by (simp add: upper_bound_def)
qed

lemma upper_bound_le: "upper_bound k m \<le> length m"
  by (simp add: upper_bound_def length_takeWhile_le)

lemma backward_search_result:
  assumes asc: "keys_ascending (seq_data s)"
    and valid: "lowerbound q \<le> upperbound q" "direction q = AKU_CURSOR_DIR_BACKWARD"
    and later: "\<exists>e\<in>set (seq_data s). upperbound q < fst (fst e)"
  shows "Sequence_search s q
   = Inr (map (\<lambda>e. Put (snd e))
            (rev (filter (\<lambda>e. lowerbound q < fst (fst e) \<and> fst (fst e) \<le> upperbound q
                               \<and> snd (fst e) = param q) (seq_data s)))
          @ [Complete])"
proof -
  let ?m = "seq_data s"
  let ?k = "(upperbound q, - 1 :: ParamId)"
  let ?i = "upper_bound ?k ?m"
  let ?Q = "\<lambda>e :: KeyType \<times> EntryOffset. lowerbound q < fst (fst e)
      \<and> fst (fst e) \<le> upperbound q \<and> snd (fst e) = param q"
  from later obtain e where "e \<in> set ?m" "upperbound q < fst (fst e)"
    by blast
  then have "e \<in> set ?m" "\<not> fst e \<le> ?k"
    by (simp_all add: key_upto_upper)
  then have "\<not> (\<forall>e\<in>set ?m. fst e \<le> ?k)"
    by blast
  then have "?i \<noteq> length ?m"
    by (simp add: upper_bound_is_end)
  with upper_bound_le [of ?k ?m] have inside: "?i < length ?m"
    by simp
  have "\<forall>x\<in>set (drop (Suc ?i) ?m). \<not> ?Q x"
  proof
    fix x assume "x \<in> set (drop (Suc ?i) ?m)"
    then have "x \<in> set (drop ?i ?m)"
      using set_drop_subset_set_drop [of ?i "Suc ?i" ?m] by auto
    then have "x \<in> set (dropWhile (\<lambda>e. fst e \<le> ?k) ?m)"
      by (simp add: upper_bound_def dropWhile_eq_drop)
    with asc have "\<not> fst x \<le> ?k"
      by (rule beyond_upper_bound)
    then show "\<not> ?Q x"
      by (simp add: key_upto_upper)
  qed
  then have "filter ?Q (drop (Suc ?i) ?m) = []"
    by (simp add: filter_empty_conv)
  then have "filter ?Q (take (Suc ?i) ?m @ drop (Suc ?i) ?m) = filter ?Q (take (Suc ?i) ?m)"
    by (simp only: filter_append append_Nil2)
  then have whole: "filter ?Q ?m = filter ?Q (take (Suc ?i) ?m)"
    by (simp only: append_take_drop_id)
  have "search_backward_loop q ?m ?i
        = Inr (map (\<lambda>e. Put (snd e)) (rev (filter ?Q ?m)))"
    by (simp only: whole backward_loop_result [OF asc inside, of q])
  with valid show ?thesis
    by (simp add: Sequence_search_def Let_def AKU_CURSOR_DIR_FORWARD_def
        AKU_CURSOR_DIR_BACKWARD_def)
qed

lemma backward_search_reads_end:
  assumes valid: "lowerbound q \<le> upperbound q" "direction q = AKU_CURSOR_DIR_BACKWARD"
    and none_later: "\<forall>e\<in>set (seq_data s). fst (fst e) \<le> upperbound q"
  shows "Sequence_search s q = Inl Deref_end"
proof -
  from none_later have "upper_bound (upperbound q, - 1) (seq_data s) = length (seq_data s)"
    by (simp add: upper_bound_is_end key_upto_upper)
  with valid show ?thesis
    by (simp add: Sequence_search_def Let_def AKU_CURSOR_DIR_FORWARD_def
        AKU_CURSOR_DIR_BACKWARD_def
        search_backward_loop.simps [of q "seq_data s" "length (seq_data s)"])
qed


lemma temp_after_uncontended:
  "seq_temp s = [] \<Longrightarrow> seq_temp (Sequence_adds (uncontended adds) s) = []"
  by (induction adds arbitrary: s) (auto simp: uncontended_def Sequence_add_def)

lemma data_set_after_uncontended:
  "seq_temp s = [] \<Longrightarrow> distinct (map key_of adds) \<Longrightarrow>
   (\<forall>a\<in>set adds. key_of a \<notin> fst ` set (seq_data s)) \<Longrightarrow>
   set (seq_data (Sequence_adds (uncontended adds) s))
   = set (seq_data s) \<union> to_entry ` set adds"
proof (induction adds arbitrary: s)
  case Nil
  then show ?case by (simp add: uncontended_def)
next
  case (Cons a adds)
  obtain ts p off where a: "a = (ts, p, off)" by (cases a)
  let ?s = "snd (Sequence_add True True ts p off s)"
  from Cons.prems(1) have data: "seq_data ?s = map_insert (ts, p) off (seq_data s)"
    and temp: "seq_temp ?s = []"
    by (simp_all add: Sequence_add_def)
  from Cons.prems(3) have new: "(ts, p) \<notin> fst ` set (seq_data s)"
    by (simp add: a to_entry_def key_of_def)
  have set1: "set (seq_data ?s) = insert ((ts, p), off) (set (seq_data s))"
    using new by (simp add: data set_map_insert_new)
  have fresh: "\<forall>b\<in>set adds. key_of b \<notin> fst ` set (seq_data ?s)"
  proof
    fix b assume b: "b \<in> set adds"
    with Cons.prems(2) have "key_of b \<noteq> (ts, p)"
      by (auto simp: a to_entry_def key_of_def)
    moreover from b Cons.prems(3) have "key_of b \<notin> fst ` set (seq_data s)"
      by simp
    ultimately show "key_of b \<notin> fst ` set (seq_data ?s)"
      by (simp add: set1)
  qed
  from Cons.prems(2) have "distinct (map key_of adds)"
    by simp
  from Cons.IH [OF temp this fresh] show ?case
    by (simp add: uncontended_def a set1 to_entry_def key_of_def)
qed

lemma data_after_uncontended_adds:
  assumes dist: "distinct (map key_of adds)"
  shows "seq_data (Sequence_adds (uncontended adds) (Sequence_new cap))
         = sort_key fst (map to_entry adds)"
proof -
  let ?d = "seq_data (Sequence_adds (uncontended adds) (Sequence_new cap))"
  let ?e = "sort_key fst (map to_entry adds)"
  have set_d: "set ?d = to_entry ` set adds"
    using data_set_after_uncontended [of "Sequence_new cap" adds] dist
    by (simp add: Sequence_new_def)
  have asc: "sorted_wrt (<) (map fst ?d)"
    using keys_ascending_adds [OF keys_ascending_new] by (simp add: keys_ascending_def)
  then have sorted_d: "sorted (map fst ?d)" and dist_d: "distinct (map fst ?d)"
    by (simp_all add: strict_sorted_iff)
  from dist have dist_e0: "distinct (map fst (map to_entry adds))"
    by (simp add: comp_def fst_to_entry)
  then have inj: "inj_on fst (set (map to_entry adds))" and dist_e1: "distinct (map to_entry adds)"
    using distinct_map [of fst "map to_entry adds"] by blast+
  have dist_e: "distinct (map fst ?e)"
    using inj dist_e1 distinct_map [of fst ?e] by simp
  have sorted_e: "sorted (map fst ?e)"
    by simp
  have "inj_on fst (set ?d \<union> set ?e)"
    using inj by (simp add: set_d)
  moreover have "set ?d = set ?e"
    by (simp add: set_d)
  ultimately show ?thesis
    using sorted_d dist_d sorted_e dist_e
    by (intro map_sorted_distinct_set_unique [of fst])
qed

lemma filter_key_single:
  "keys_ascending m \<Longrightarrow> map_of m k = Some v \<Longrightarrow> filter (\<lambda>e. fst e = k) m = [(k, v)]"
proof (induction m)
  case Nil
  then show ?case by simp
next
  case (Cons e m)
  from Cons.prems(1) have tl: "keys_ascending m" and hd: "\<forall>x\<in>set m. fst e < fst x"
    by (auto simp: keys_ascending_Cons)
  show ?case
  proof (cases "fst e = k")
    case True
    with hd have "\<forall>x\<in>set m. fst x \<noteq> k"
      by auto
    then have "filter (\<lambda>e. fst e = k) m = []"
      by (simp add: filter_empty_conv)
    moreover from True Cons.prems(2) have "e = (k, v)"
      by (cases e) simp
    ultimately show ?thesis by simp
  next
    case False
    with Cons.prems(2) have "map_of m k = Some v"
      by (cases e) (simp split: if_splits)
    with False Cons.IH [OF tl] show ?thesis by simp
  qed
qed

section \<open>Sequence.add\<close>

text \<open>
  C4. Insertion is first-writer-wins. Take any shard reached from a new one by adds, with
  any lock outcomes, in which the key \<open>(ts, p)\<close> is mapped to \<open>o1\<close>. A further add
  of the same key with an offset \<open>o2\<close>, whatever its lock outcomes, leaves the key mapped
  to \<open>o1\<close>, and a forward search for exactly that key delivers \<open>o1\<close> alone and then
  completes.
\<close>

theorem add_first_writer_wins:
  assumes present: "map_of (seq_data (Sequence_adds ops (Sequence_new cap))) (ts, p) = Some o1"
  shows "map_of (seq_data (snd (Sequence_add lock_ok tmp_ok ts p o2
                                   (Sequence_adds ops (Sequence_new cap))))) (ts, p) = Some o1
       \<and> Sequence_search (snd (Sequence_add lock_ok tmp_ok ts p o2
                                   (Sequence_adds ops (Sequence_new cap))))
            (forward_query ts (ts + 1) p)
         = Inr [Put o1, Complete]"
proof -
  let ?s = "Sequence_adds ops (Sequence_new cap)"
  let ?s' = "snd (Sequence_add lock_ok tmp_ok ts p o2 ?s)"
  let ?q = "forward_query ts (ts + 1) p"
  have asc: "keys_ascending (seq_data ?s)"
    by (rule keys_ascending_adds [OF keys_ascending_new])
  then have asc': "keys_ascending (seq_data ?s')"
    by (rule keys_ascending_add)
  from asc present have kept: "map_of (seq_data ?s') (ts, p) = Some o1"
    by (rule map_of_add_present)
  have "filter (\<lambda>e. lowerbound ?q \<le> fst (fst e) \<and> fst (fst e) < upperbound ?q
                     \<and> snd (fst e) = param ?q) (seq_data ?s')
        = filter (\<lambda>e. fst e = (ts, p)) (seq_data ?s')"
    by (intro filter_cong) (auto simp: forward_query_def prod_eq_iff)
  also from asc' kept have "\<dots> = [((ts, p), o1)]"
    by (rule filter_key_single)
  finally have hits: "filter (\<lambda>e. lowerbound ?q \<le> fst (fst e) \<and> fst (fst e) < upperbound ?q
                     \<and> snd (fst e) = param ?q) (seq_data ?s') = [((ts, p), o1)]" .
  have "lowerbound ?q \<le> upperbound ?q" "direction ?q = AKU_CURSOR_DIR_FORWARD"
    by (simp_all add: forward_query_def)
  from forward_search_result [OF asc' this] have "Sequence_search ?s' ?q = Inr [Put o1, Complete]"
    by (simp only: hits) simp
  with kept show ?thesis
    by (rule conjI)
qed

theorem add_first_writer_wins_witness:
  "map_of (seq_data (Sequence_adds first_add (Sequence_new 100))) (5, 1) = Some 7
   \<and> map_of (seq_data (snd (Sequence_add True True 5 1 9
                               (Sequence_adds first_add (Sequence_new 100))))) (5, 1) = Some 7
   \<and> Sequence_search (snd (Sequence_add True True 5 1 9
                               (Sequence_adds first_add (Sequence_new 100))))
        (forward_query 5 (5 + 1) 1)
     = Inr [Put 7, Complete]"
proof -
  have present: "map_of (seq_data (Sequence_adds first_add (Sequence_new 100))) (5, 1) = Some 7"
    by code_simp
  from present add_first_writer_wins [OF present, of True True 9] show ?thesis
    by (rule conjI)
qed

section \<open>Sequence.search\<close>

text \<open>
  C3, as the code has it. After uncontended adds with pairwise distinct keys into a new
  shard, a valid forward search delivers exactly the offsets of the entries with
  \<open>lo \<le> time < hi\<close> and the queried parameter, in ascending key order, and then completes;
  a valid backward search, on a shard that holds an entry later than \<open>hi\<close>, delivers
  exactly those with \<open>lo < time \<le> hi\<close> and the queried parameter, in descending key
  order, and then completes.
\<close>

theorem search_after_distinct_adds:
  assumes dist: "distinct (map key_of adds)"
    and valid: "lowerbound q \<le> upperbound q"
  shows "(direction q = AKU_CURSOR_DIR_FORWARD \<longrightarrow>
            Sequence_search (Sequence_adds (uncontended adds) (Sequence_new cap)) q
            = Inr (map (\<lambda>e. Put (snd e))
                     (filter (in_forward_range q) (ascending_entries adds)) @ [Complete]))
       \<and> (direction q = AKU_CURSOR_DIR_BACKWARD \<and> (\<exists>a\<in>set adds. upperbound q < fst a) \<longrightarrow>
            Sequence_search (Sequence_adds (uncontended adds) (Sequence_new cap)) q
            = Inr (map (\<lambda>e. Put (snd e))
                     (rev (filter (in_backward_range q) (ascending_entries adds))) @ [Complete]))"
proof -
  let ?s = "Sequence_adds (uncontended adds) (Sequence_new cap)"
  have data: "seq_data ?s = ascending_entries adds"
    using dist by (simp add: ascending_entries_def data_after_uncontended_adds)
  have asc: "keys_ascending (seq_data ?s)"
    by (rule keys_ascending_adds [OF keys_ascending_new])
  have fwd: "in_forward_range q = (\<lambda>e. lowerbound q \<le> fst (fst e)
      \<and> fst (fst e) < upperbound q \<and> snd (fst e) = param q)"
    by (simp add: in_forward_range_def fun_eq_iff)
  have bwd: "in_backward_range q = (\<lambda>e. lowerbound q < fst (fst e)
      \<and> fst (fst e) \<le> upperbound q \<and> snd (fst e) = param q)"
    by (simp add: in_backward_range_def fun_eq_iff)
  show ?thesis
  proof (intro conjI impI)
    assume "direction q = AKU_CURSOR_DIR_FORWARD"
    from forward_search_result [OF asc valid this] show
      "Sequence_search ?s q
       = Inr (map (\<lambda>e. Put (snd e))
                (filter (in_forward_range q) (ascending_entries adds)) @ [Complete])"
      by (simp only: data fwd)
  next
    assume b: "direction q = AKU_CURSOR_DIR_BACKWARD \<and> (\<exists>a\<in>set adds. upperbound q < fst a)"
    then obtain a where a: "a \<in> set adds" "upperbound q < fst a"
      by blast
    then have "to_entry a \<in> set (seq_data ?s)" "upperbound q < fst (fst (to_entry a))"
      by (simp_all add: data ascending_entries_def fst_to_entry key_of_def)
    then have "\<exists>e\<in>set (seq_data ?s). upperbound q < fst (fst e)"
      by blast
    from backward_search_result [OF asc valid _ this] b show
      "Sequence_search ?s q
       = Inr (map (\<lambda>e. Put (snd e))
                (rev (filter (in_backward_range q) (ascending_entries adds))) @ [Complete])"
      by (simp only: data bwd)
  qed
qed

theorem search_after_distinct_adds_witness:
  "distinct (map key_of five_adds)
   \<and> Sequence_search (Sequence_adds (uncontended five_adds) (Sequence_new 100))
        (forward_query 0 1023 1)
      = Inr [Put 10, Put 20, Complete]
   \<and> Sequence_search (Sequence_adds (uncontended five_adds) (Sequence_new 100))
        (backward_query 0 1023 1)
      = Inr [Put 30, Put 20, Complete]"
proof -
  have dist: "distinct (map key_of five_adds)"
    by code_simp
  have vf: "lowerbound (forward_query 0 1023 1) \<le> upperbound (forward_query 0 1023 1)"
    by (simp add: forward_query_def)
  have vb: "lowerbound (backward_query 0 1023 1) \<le> upperbound (backward_query 0 1023 1)"
    by (simp add: backward_query_def)
  have df: "direction (forward_query 0 1023 1) = AKU_CURSOR_DIR_FORWARD"
    by (simp add: forward_query_def)
  have db: "direction (backward_query 0 1023 1) = AKU_CURSOR_DIR_BACKWARD
            \<and> (\<exists>a\<in>set five_adds. upperbound (backward_query 0 1023 1) < fst a)"
    by (simp add: backward_query_def five_adds_def)
  have rf: "map (\<lambda>e. Put (snd e))
              (filter (in_forward_range (forward_query 0 1023 1)) (ascending_entries five_adds))
            @ [Complete] = [Put 10, Put 20, Complete]"
    by code_simp
  have rb: "map (\<lambda>e. Put (snd e))
              (rev (filter (in_backward_range (backward_query 0 1023 1))
                      (ascending_entries five_adds)))
            @ [Complete] = [Put 30, Put 20, Complete]"
    by code_simp
  from search_after_distinct_adds [OF dist vf, of 100] df
  have f: "Sequence_search (Sequence_adds (uncontended five_adds) (Sequence_new 100))
        (forward_query 0 1023 1) = Inr [Put 10, Put 20, Complete]"
    by (simp only: rf)
  from search_after_distinct_adds [OF dist vb, of 100] db
  have b: "Sequence_search (Sequence_adds (uncontended five_adds) (Sequence_new 100))
        (backward_query 0 1023 1) = Inr [Put 30, Put 20, Complete]"
    by (simp only: rb)
  from dist f b show ?thesis
    by (intro conjI)
qed

text \<open>
  C3 as stated, with the closed range \<open>[lo, hi]\<close>, fails at the upper end of a forward
  search: the shard holds one entry at time 5, the query is forward over \<open>[0, 5]\<close> for its
  parameter, and the search completes without delivering it.
\<close>

theorem search_upper_bound_counterexample:
  "distinct (map key_of one_add)
   \<and> Sequence_search (Sequence_adds (uncontended one_add) (Sequence_new 100)) (forward_query 0 5 1)
     = Inr [Complete]
   \<and> claimed_search_result one_add (forward_query 0 5 1) = [Put 7, Complete]"
  by code_simp

text \<open>
  A query with a malformed direction or with \<open>upperbound < lowerbound\<close> gets the
  bad-argument error through the sink and nothing else; a valid forward query gets offsets
  and then completion, once.
\<close>

lemma search_bad_argument:
  "upperbound q < lowerbound q
   \<or> (direction q \<noteq> AKU_CURSOR_DIR_FORWARD \<and> direction q \<noteq> AKU_CURSOR_DIR_BACKWARD) \<Longrightarrow>
   Sequence_search s q = Inr [Set_error AKU_EBAD_ARG]"
  by (auto simp: Sequence_search_def Let_def)

lemma forward_loop_puts: "\<exists>offs. search_forward_loop q m = map Put offs"
proof (induction m)
  case Nil
  then show ?case by simp
next
  case (Cons e m)
  then obtain offs where offs: "search_forward_loop q m = map Put offs"
    by blast
  obtain k v where e: "e = (k, v)" by (cases e)
  have "search_forward_loop q (e # m) = map Put []
        \<or> search_forward_loop q (e # m) = map Put (v # offs)
        \<or> search_forward_loop q (e # m) = map Put offs"
    by (simp add: e offs)
  then show ?case by blast
qed

lemma forward_search_completes_once:
  assumes "lowerbound q \<le> upperbound q" "direction q = AKU_CURSOR_DIR_FORWARD"
  shows "\<exists>offs. Sequence_search s q = Inr (map Put offs @ [Complete])"
proof -
  obtain offs where "search_forward_loop q
      (drop (lower_bound (lowerbound q, 0) (seq_data s)) (seq_data s)) = map Put offs"
    using forward_loop_puts by blast
  with assms show ?thesis
    by (intro exI [of _ offs])
       (simp add: Sequence_search_def Let_def AKU_CURSOR_DIR_FORWARD_def
          AKU_CURSOR_DIR_BACKWARD_def)
qed

text \<open>
  Where the checked search returns events, the unchecked one delivers the same, whatever
  the read at \<^verbatim>\<open>end()\<close> would have yielded.
\<close>

lemma backward_unchecked_agrees:
  "i < length m \<Longrightarrow>
   search_backward_loop q m i = Inr (search_backward_unchecked at_end q m i)"
proof (induction i)
  case 0
  then show ?case
    by (simp add: search_backward_loop.simps [of q m 0]
        search_backward_unchecked.simps [of at_end q m 0] Let_def)
next
  case (Suc i)
  then have "search_backward_loop q m i = Inr (search_backward_unchecked at_end q m i)"
    by simp
  with Suc.prems show ?case
    by (simp add: search_backward_loop.simps [of q m "Suc i"]
        search_backward_unchecked.simps [of at_end q m "Suc i"] Let_def)
qed

lemma search_unchecked_agrees:
  assumes "Sequence_search s q = Inr evs"
  shows "Sequence_search_unchecked at_end s q = evs"
proof (cases "upperbound q < lowerbound q
    \<or> \<not> ((direction q = AKU_CURSOR_DIR_FORWARD) \<noteq> (direction q = AKU_CURSOR_DIR_BACKWARD))")
  case True
  with assms show ?thesis
    by (auto simp: Sequence_search_def Sequence_search_unchecked_def Let_def)
next
  case valid: False
  show ?thesis
  proof (cases "direction q = AKU_CURSOR_DIR_BACKWARD")
    case False
    with valid assms show ?thesis
      by (auto simp: Sequence_search_def Sequence_search_unchecked_def Let_def)
  next
    case True
    let ?i = "upper_bound (upperbound q, - 1) (seq_data s)"
    have "?i < length (seq_data s)"
    proof (rule ccontr)
      assume "\<not> ?i < length (seq_data s)"
      then have "search_backward_loop q (seq_data s) ?i = Inl Deref_end"
        by (simp add: search_backward_loop.simps [of q "seq_data s" ?i])
      with valid True assms show False
        by (auto simp: Sequence_search_def Let_def)
    qed
    then have "search_backward_loop q (seq_data s) ?i
               = Inr (search_backward_unchecked at_end q (seq_data s) ?i)"
      by (rule backward_unchecked_agrees)
    with valid True assms show ?thesis
      by (auto simp: Sequence_search_def Sequence_search_unchecked_def Let_def)
  qed
qed




text \<open>
  The spec's scenario, times 0, 1 and 1023 in one shard and a backward query over
  \<open>[0, 1023]\<close>: the search starts at \<^verbatim>\<open>end()\<close>; if the read there yields a key outside
  the range it delivers the offsets of times 1023 and 1 and completes once, and if it
  yields a key inside the range, here time 7 of the queried parameter, the offset read with
  it comes first.
\<close>

lemma backward_search_in_unchecked_build:
  "Sequence_search_unchecked ((5000, 1), 99) (shard_of three_adds) (backward_query 0 1023 1)
     = [Put 30, Put 20, Complete]
   \<and> Sequence_search_unchecked ((7, 1), 99) (shard_of three_adds) (backward_query 0 1023 1)
     = [Put 99, Put 30, Put 20, Complete]
   \<and> Sequence_search (shard_of three_adds) (backward_query 0 1023 1) = Inl Deref_end"
  by code_simp

text \<open>
  C10. The claim: a backward search only reads elements that are in the map. The code reads
  the position \<^verbatim>\<open>upper_bound\<close> returns before any test, and that position is \<^verbatim>\<open>end()\<close>
  when the shard is empty and when no stored time is later than \<open>upperbound\<close>: here a
  new shard, and a shard with one entry at time 5, both queried backward over \<open>[0, 10]\<close>.
  The lemma \<open>backward_search_reads_end\<close> has it for every such shard and query.
\<close>

theorem backward_search_dereferences_end:
  "Sequence_search (Sequence_new 100) (backward_query 0 10 1) = Inl Deref_end
   \<and> seq_data (shard_of one_add) = [((5, 1), 7)]
   \<and> Sequence_search (shard_of one_add) (backward_query 0 10 1) = Inl Deref_end"
  by code_simp

section \<open>Bucket.merge\<close>

text \<open>
  C6. A bucket whose state counter is 0 is still accepting writes: \<open>Bucket_merge\<close> returns
  the busy status and puts nothing into the sink, whatever the shards hold and whatever the
  entry reader answers.
\<close>

theorem merge_live_bucket_busy:
  "state b = 0 \<Longrightarrow> Bucket_merge b page = Inr (AKU_EBUSY, [])"
  by (simp add: Bucket_merge_def)

theorem merge_live_bucket_busy_witness:
  "state filled_bucket = 0
   \<and> Bucket_merge filled_bucket entries_page = Inr (AKU_EBUSY, [])"
proof -
  have live: "state filled_bucket = 0"
    by code_simp
  from live merge_live_bucket_busy [OF live] show ?thesis
    by (rule conjI)
qed

text \<open>
  C1. The claim: merging a retired bucket whose entries lie on at least two shards puts
  the offsets of all its entries into the sink, ascending by the key the entry reader
  resolves them to, and returns success. The code at \<open>retired_bucket\<close>: the bucket is
  retired, its two shards hold the offsets 1, 3 and 2, and no add has written the counter
  \<^verbatim>\<open>rrindex_\<close>, so the fast path of line 193 returns success with an empty sink where the
  claim has the offsets 1, 2, 3.
\<close>

theorem merge_retired_bucket_emits_nothing:
  "state retired_bucket = 1 \<and> rrindex retired_bucket = 0
   \<and> map seq_data (seq retired_bucket) = [[((1, 1), 1), ((3, 1), 3)], [((2, 1), 2)]]
   \<and> Bucket_merge retired_bucket entries_page = Inr (AKU_SUCCESS, [])"
  by code_simp

text \<open>
  Past the fast path the loop of lines 210-230 stops as soon as a single shard has entries
  left (\<^verbatim>\<open>op_cnt == 0\<close>) and leaves them out: with the counter set by hand the same
  bucket yields the offsets 1 and 2 and loses 3. With three shards, the second and third
  exhausted and \<^verbatim>\<open>next_min\<close> on an exhausted one, \<^verbatim>\<open>less_than\<close> reads an end iterator.
\<close>

lemma merge_loop_drops_rest_of_last_shard:
  "Bucket_merge (retired_bucket\<lparr>rrindex := 1\<rparr>) entries_page
   = Inr (AKU_SUCCESS, [Put 1, Put 2])"
  by code_simp

section \<open>Cache\<close>

lemma find_if_None: "(find_if P bs = None) = (\<forall>b\<in>set bs. \<not> P b)"
  by (induction bs) auto

text \<open>\<open>mark_last\<close> keeps every bucket in its place and lowers no state counter.\<close>

lemma mark_last_states:
  assumes "mark_last bs n = Inr bs'"
  shows "length bs' = length bs \<and> (\<forall>i<length bs. state (bs ! i) \<le> state (bs' ! i))"
proof -
  let ?k = "length bs - n"
  from assms have n: "n \<le> length bs"
    and bs': "bs' = take ?k bs @ map (\<lambda>b. b\<lparr>state := state b + 1\<rparr>) (drop ?k bs)"
    by (auto simp: mark_last_def split: if_splits)
  have "length bs' = length bs"
    using n by (simp add: bs')
  moreover have "\<forall>i<length bs. state (bs ! i) \<le> state (bs' ! i)"
  proof (intro allI impI)
    fix i assume i: "i < length bs"
    show "state (bs ! i) \<le> state (bs' ! i)"
    proof (cases "i < ?k")
      case True
      then show ?thesis by (simp add: bs' nth_append)
    next
      case False
      with i have "bs' ! i = (bs ! i)\<lparr>state := state (bs ! i) + 1\<rparr>"
        by (simp add: bs' nth_append min_def)
      then show ?thesis by simp
    qed
  qed
  ultimately show ?thesis by simp
qed

text \<open>
  C2. The claim: while the baseline slides forward one step at a time past the capacity,
  the live buckets of the window never exceed the capacity and the count reported through
  \<^verbatim>\<open>nswapped\<close> is the number of buckets retired. The code, with capacity 3, after four
  writes that each move the baseline one step: three live buckets, four retired buckets,
  and 10 reported. Line 359 takes \<^verbatim>\<open>cache_.size()\<close>, which counts the retired buckets that
  stay in the window, so every slide reports and marks them again.
\<close>

theorem swapped_count_exceeds_retired:
  "window_states (after_ops four_slides)
     = Some [(3, 0), (5, 0), (4, 0), (3, 1), (0, 2), (1, 3), (2, 4)]
   \<and> live_in_window (after_ops four_slides) = Some 3
   \<and> retired_total (after_ops four_slides) = Some 4
   \<and> swapped_count (after_ops four_slides) = Some 10"
  by code_simp

text \<open>
  C9. The claim: a state counter never decreases and leaves 0 exactly once, no operation
  increments a counter that is not 0. The code: the first one-step slide retires the bucket
  of baseline 2 (state 1), the second slide increments the same counter to 2.
\<close>

theorem retired_bucket_marked_again:
  "window_states (after_ops [put_entry 1024 1 7]) = Some [(3, 0), (0, 0), (1, 0), (2, 1)]
   \<and> window_states (after_ops [put_entry 1024 1 7, put_entry 2048 1 8])
       = Some [(4, 0), (3, 0), (0, 0), (1, 1), (2, 2)]"
  by code_simp

text \<open>
  C7. The claim: a bucket that \<open>allocate_from_free_list\<close> takes back into the window is
  cleared and gets the baseline of its slot before it is live. The code: the bucket of
  baseline 0 receives the offset 42, \<^verbatim>\<open>clear()\<close> moves it to the free list, and the write
  at bucket index 3 allocates two buckets for the slots 1 and 2; it comes back live with
  baseline 0 and with its entry, which a search of it delivers.
\<close>

theorem reused_bucket_keeps_contents:
  "observe (after_ops [put_entry 0 1 42, put_entry 1024 1 7])
     = Some ([AKU_WRITE_STATUS_SUCCESS, AKU_WRITE_STATUS_SUCCESS], 1, 1,
             [(3, 0, []), (0, 0, [((0, 1), 42)]), (1, 0, [((1024, 1), 7)]), (2, 1, [])],
             [(4, 0, []), (5, 0, [])])
   \<and> observe (after_ops reuse_ops)
     = Some ([AKU_WRITE_STATUS_SUCCESS, AKU_WRITE_STATUS_SUCCESS, AKU_WRITE_STATUS_SUCCESS], 1, 3,
             [(3, 0, [((3072, 1), 9)]), (0, 0, [((0, 1), 42)])],
             [(1, 0, [((1024, 1), 7)]), (2, 1, []), (4, 0, []), (5, 0, [])])
   \<and> search_window_bucket (after_ops reuse_ops) 1 (forward_query 0 10 1)
     = Some (Inr [Put 42, Complete, Complete])"
  by code_simp

text \<open>
  The overflow path itself, lines 331-338: a write whose target bucket index is less than
  \<^verbatim>\<open>baseline_\<close> and less than the baseline of every live bucket of the window returns the
  overflow status and leaves the cache and the swapped count as they were.
\<close>

lemma overflow_leaves_cache_unchanged:
  assumes older: "ts div 2 ^ shift c < cache_baseline c"
    and live: "older_than_live c ts"
  shows "Cache_add_entry lim cpuix lock_ok tmp_ok ts pid offset nswapped c
         = Inr (AKU_EOVERFLOW, nswapped, c)"
proof -
  let ?ix = "ts div 2 ^ shift c"
  from live have "\<forall>b\<in>set (cache_list c). \<not> (state b = 0 \<and> baseline b = ?ix)"
    by (auto simp: older_than_live_def)
  then have "find_if (\<lambda>b. state b = 0 \<and> baseline b = ?ix) (cache_list c) = None"
    by (simp add: find_if_None)
  with older show ?thesis
    by (simp add: Cache_add_entry_def Let_def)
qed

text \<open>
  So the overflow claim holds in every cache whose window has a live bucket at or below
  \<^verbatim>\<open>baseline_\<close>, as it has when the front bucket is the one of \<^verbatim>\<open>baseline_\<close>.
\<close>

lemma overflow_when_window_reaches_baseline:
  assumes reach: "\<exists>b\<in>set (cache_list c). state b = 0 \<and> baseline b \<le> cache_baseline c"
    and live: "older_than_live c ts"
  shows "Cache_add_entry lim cpuix lock_ok tmp_ok ts pid offset nswapped c
         = Inr (AKU_EOVERFLOW, nswapped, c)"
proof -
  from reach obtain b where b: "b \<in> set (cache_list c)" "state b = 0"
    "baseline b \<le> cache_baseline c"
    by blast
  with live have "ts div 2 ^ shift c < baseline b"
    by (simp add: older_than_live_def)
  with b have "ts div 2 ^ shift c < cache_baseline c"
    by simp
  from this live show ?thesis
    by (rule overflow_leaves_cache_unchanged)
qed

text \<open>
  C5. The claim: a write whose target bucket index is less than the baseline of every live
  bucket of the window returns the overflow status and changes nothing. The code, after a
  slide to 1, \<^verbatim>\<open>clear()\<close> and a write at bucket index 2: the free list gives back the bucket
  of baseline 3 as it is, so the window holds that one live bucket and \<^verbatim>\<open>baseline_\<close> is 2.
  A further write at time 2048 has the target index 2, less than 3, but \<^verbatim>\<open>index == 0\<close>
  and line 329 takes \<^verbatim>\<open>cache_.front()\<close> without looking at its baseline: the write status
  is returned and the bucket of baseline 3 holds the entry.
\<close>

theorem write_older_than_live_bucket_is_stored:
  "observe (after_ops stale_ops)
     = Some ([AKU_WRITE_STATUS_SUCCESS, AKU_EGENERAL], 1, 2, [(3, 0, [])],
             [(0, 0, []), (1, 0, [((1024, 1), 7)]), (2, 1, []), (4, 0, []), (5, 0, [])])
   \<and> map bucket_view (cache_list stale_cache) = [(3, 0, [])]
   \<and> cache_baseline stale_cache = 2
   \<and> 2048 div 2 ^ shift stale_cache = (2 :: int)
   \<and> map_sum id fst (Cache_add_entry small_limits 0 True True 2048 1 9 1 stale_cache)
     = Inr AKU_WRITE_STATUS_SUCCESS
   \<and> observe (after_ops (stale_ops @ [put_entry 2048 1 9]))
     = Some ([AKU_WRITE_STATUS_SUCCESS, AKU_EGENERAL, AKU_WRITE_STATUS_SUCCESS], 1, 2,
             [(3, 0, [((2048, 1), 9)])],
             [(0, 0, []), (1, 0, [((1024, 1), 7)]), (2, 1, []), (4, 0, []), (5, 0, [])])"
  by code_simp

text \<open>In that cache the target is older than every live bucket of the window, and a
  target below \<^verbatim>\<open>baseline_\<close> does overflow.\<close>

lemma stale_cache_target_older_than_live:
  "older_than_live stale_cache 2048
   \<and> Cache_add_entry small_limits 0 True True 1024 1 9 1 stale_cache
     = Inr (AKU_EOVERFLOW, 1, stale_cache)"
  by code_simp

end
